theory Spec2Isabelle
  imports
    Main
    "HOL-Library.Word"
    "HOL-Library.Char_ord"
    "HOL-Library.List_Lexorder"
    "HOL-Library.Sublist"
    "HOL-Library.Multiset"
begin

unbundle bit_operations_syntax

section \<open>Strings and the library functions the signer calls\<close>

text \<open>
  A Go string is a sequence of bytes; \<^typ>\<open>string\<close> is a list of \<^typ>\<open>char\<close>, and a
  \<^typ>\<open>char\<close> is one byte. The order on \<^typ>\<open>char\<close> is the order of the byte values and
  the order on lists is the lexicographic one, which is how Go compares strings.
\<close>

type_synonym byte = "8 word"

definition byte_of :: "char \<Rightarrow> byte" where
  "byte_of c = of_char c"

definition bytes_of :: "string \<Rightarrow> byte list" where
  "bytes_of s = map byte_of s"

subsection \<open>net/url: QueryEscape\<close>

text \<open>
  \<open>shouldEscape(c, encodeQueryComponent)\<close>: letters, digits and the four marks
  \<open>- _ . ~\<close> are kept, every other byte is escaped.
\<close>

definition shouldEscape :: "char \<Rightarrow> bool" where
  "shouldEscape c =
     (if (CHR ''a'' \<le> c \<and> c \<le> CHR ''z'') \<or> (CHR ''A'' \<le> c \<and> c \<le> CHR ''Z'')
          \<or> (CHR ''0'' \<le> c \<and> c \<le> CHR ''9'')
      then False
      else if c = CHR ''-'' \<or> c = CHR ''_'' \<or> c = CHR ''.'' \<or> c = CHR ''~''
      then False
      else True)"

definition upperhex :: string where
  "upperhex = ''0123456789ABCDEF''"

text \<open>One byte of \<open>escape(s, encodeQueryComponent)\<close>: a space becomes \<open>+\<close>, an escaped
  byte becomes \<open>%\<close> and its two upper-case hexadecimal digits.\<close>

definition escape_byte :: "char \<Rightarrow> string" where
  "escape_byte c =
     (if c = CHR '' '' then ''+''
      else if shouldEscape c
      then [CHR ''%'', upperhex ! ((of_char c :: nat) div 16), upperhex ! ((of_char c :: nat) mod 16)]
      else [c])"

definition QueryEscape :: "string \<Rightarrow> string" where
  "QueryEscape s = concat (map escape_byte s)"

subsection \<open>strings: ReplaceAll, TrimSuffix\<close>

text \<open>
  \<open>strings.ReplaceAll(s, old, new)\<close> for a non-empty \<open>old\<close>: the non-overlapping
  occurrences of \<open>old\<close> are replaced from left to right. (With an empty \<open>old\<close> Go
  inserts \<open>new\<close> around every UTF-8 sequence; the program never passes one, and the
  model leaves the string as it is there.)
\<close>

fun ReplaceAll :: "string \<Rightarrow> string \<Rightarrow> string \<Rightarrow> string" where
  "ReplaceAll [] old new = []"
| "ReplaceAll (c # s) old new =
     (if old \<noteq> [] \<and> prefix old (c # s)
      then new @ ReplaceAll (drop (length old - 1) s) old new
      else c # ReplaceAll s old new)"

definition TrimSuffix :: "string \<Rightarrow> string \<Rightarrow> string" where
  "TrimSuffix s suf = (if suffix suf s then take (length s - length suf) s else s)"

section \<open>The request signer\<close>

subsection \<open>urlEncode\<close>

definition urlEncode :: "string \<Rightarrow> string" where
  "urlEncode s = ReplaceAll (QueryEscape s) ''+'' ''%20''"

subsection \<open>getRequestParamString\<close>

text \<open>
  The parameter map is an association list with distinct keys: the list order is the
  order in which \<open>range\<close> happens to visit the map, which Go leaves unspecified.
  \<open>params[k]\<close> is the value stored under \<open>k\<close>, the empty string when there is none.
\<close>

type_synonym params = "(string \<times> string) list"

definition map_index :: "params \<Rightarrow> string \<Rightarrow> string" where
  "map_index ps k = (case map_of ps k of None \<Rightarrow> [] | Some v \<Rightarrow> v)"

definition range_keys :: "params \<Rightarrow> string list" where
  "range_keys ps = map fst ps"

definition getRequestParamString :: "params \<Rightarrow> string" where
  "getRequestParamString ps =
     (let keys = sort (range_keys ps);
          paramStr = concat (map (\<lambda>k. k @ ''='' @ urlEncode (map_index ps k) @ ''&'') keys)
      in TrimSuffix paramStr ''&'')"

subsection \<open>What the specification calls canonical form\<close>

text \<open>Joining with a separator, and the percent-encoding of one byte with the space
  written \<open>%20\<close>; both are used only to state the properties below.\<close>

fun join :: "string \<Rightarrow> string list \<Rightarrow> string" where
  "join sep [] = []"
| "join sep [x] = x"
| "join sep (x # y # ys) = x @ sep @ join sep (y # ys)"

definition unreserved :: "char \<Rightarrow> bool" where
  "unreserved c \<longleftrightarrow>
     c \<in> set ''abcdefghijklmnopqrstuvwxyzABCDEFGHIJKLMNOPQRSTUVWXYZ0123456789-_.~''"

definition percent_byte :: "char \<Rightarrow> string" where
  "percent_byte c =
     (if unreserved c then [c]
      else [CHR ''%'', upperhex ! ((of_char c :: nat) div 16), upperhex ! ((of_char c :: nat) mod 16)])"

definition hexdigit :: "char \<Rightarrow> bool" where
  "hexdigit c \<longleftrightarrow> c \<in> set upperhex"

(* END-DEFS *)

section \<open>Properties of the request signer\<close>

subsection \<open>Percent-encoding\<close>

lemma ReplaceAll_single:
  "ReplaceAll s [c] new = concat (map (\<lambda>x. if x = c then new else [x]) s)"
  by (induction s) auto

lemma shouldEscape_unreserved: "shouldEscape c \<longleftrightarrow> \<not> unreserved c"
  apply (cases c)
  subgoal for b0 b1 b2 b3 b4 b5 b6 b7
    apply (cases b0; cases b1; cases b2; cases b3; cases b4; cases b5; cases b6; cases b7)
    apply (simp_all add: shouldEscape_def unreserved_def)
    done
  done


lemma upperhex_nth: "n < 16 \<Longrightarrow> hexdigit (upperhex ! n)"
  unfolding hexdigit_def by (rule nth_mem) (simp add: upperhex_def)

lemma of_char_div16: "(of_char c :: nat) div 16 < 16"
proof -
  have "(of_char c :: nat) < 256" by (rule nat_of_char_less_256)
  then show ?thesis by arith
qed

lemma concat_map_concat: "concat (map f (concat xss)) = concat (map (\<lambda>xs. concat (map f xs)) xss)"
  by (induction xss) auto

lemma urlEncode_bytewise:
  "urlEncode s = concat (map (\<lambda>c. if c = CHR '' '' then ''%20'' else percent_byte c) s)"
proof -
  have one: "concat (map (\<lambda>x. if x = CHR ''+'' then ''%20'' else [x]) (escape_byte c))
      = (if c = CHR '' '' then ''%20'' else percent_byte c)" for c
  proof -
    have h1: "upperhex ! ((of_char c :: nat) div 16) \<noteq> CHR ''+''"
      using upperhex_nth [OF of_char_div16, of c] by (auto simp: hexdigit_def upperhex_def)
    have h2: "upperhex ! ((of_char c :: nat) mod 16) \<noteq> CHR ''+''"
      using upperhex_nth [of "(of_char c :: nat) mod 16"] by (auto simp: hexdigit_def upperhex_def)
    have h3: "unreserved c \<Longrightarrow> c \<noteq> CHR ''+''"
      by (auto simp: unreserved_def)
    show ?thesis
      using h1 h2 h3 by (auto simp: escape_byte_def percent_byte_def shouldEscape_unreserved)
  qed
  show ?thesis
    unfolding urlEncode_def QueryEscape_def ReplaceAll_single
    by (simp add: concat_map_concat comp_def one)
qed


lemma in_concat_map: "x \<in> set (concat (map g s)) \<Longrightarrow> \<exists>c. x \<in> set (g c)"
  by (induction s) auto

lemma set_percent_byte: "x \<in> set (percent_byte c) \<Longrightarrow> x = CHR ''%'' \<or> hexdigit x \<or> unreserved x"
  using upperhex_nth [OF of_char_div16, of c] upperhex_nth [of "(of_char c :: nat) mod 16"]
  by (auto simp: percent_byte_def split: if_splits)

lemma set_urlEncode: "x \<in> set (urlEncode s) \<Longrightarrow> x = CHR ''%'' \<or> hexdigit x \<or> unreserved x"
proof -
  assume "x \<in> set (urlEncode s)"
  then obtain c where c: "x \<in> set (if c = CHR '' '' then ''%20'' else percent_byte c)"
    unfolding urlEncode_bytewise by (blast dest: in_concat_map)
  show ?thesis
  proof (cases "c = CHR '' ''")
    case True
    with c have "x = CHR ''%'' \<or> x = CHR ''2'' \<or> x = CHR ''0''" by simp
    then show ?thesis by (auto simp: hexdigit_def upperhex_def)
  next
    case False
    with c show ?thesis by (simp add: set_percent_byte)
  qed
qed


lemma amp_not_kept: "\<not> (CHR ''&'' = CHR ''%'' \<or> hexdigit CHR ''&'' \<or> unreserved CHR ''&'')"
  by (simp add: hexdigit_def upperhex_def unreserved_def)


lemma urlEncode_no_amp: "CHR ''&'' \<notin> set (urlEncode s)"
  using set_urlEncode [of "CHR ''&''" s] amp_not_kept by blast

lemma concat_sep_join:
  "xs \<noteq> [] \<Longrightarrow> concat (map (\<lambda>x. f x @ sep) xs) = join sep (map f xs) @ sep"
  by (induction xs rule: induct_list012) auto

lemma TrimSuffix_append: "TrimSuffix (s @ suf) suf = s"
  by (simp add: TrimSuffix_def suffix_def)

lemma join_last: "xs \<noteq> [] \<Longrightarrow> \<exists>p. join sep xs = p @ last xs"
  by (induction xs rule: induct_list012) auto

lemma sort_keys_strict: "distinct ks \<Longrightarrow> sorted_wrt (<) (sort (ks :: string list))"
  by (simp add: strict_sorted_iff)

lemma getRequestParamString_join:
  "getRequestParamString ps =
     join ''&'' (map (\<lambda>k. k @ ''='' @ urlEncode (map_index ps k)) (sort (range_keys ps)))"
proof (cases "ps = []")
  case True
  then show ?thesis by (simp add: getRequestParamString_def range_keys_def TrimSuffix_def)
next
  case False
  then have ne: "sort (range_keys ps) \<noteq> []"
    by (metis length_sort length_0_conv map_is_Nil_conv range_keys_def)
  have "concat (map (\<lambda>k. k @ ''='' @ urlEncode (map_index ps k) @ ''&'') (sort (range_keys ps)))
      = join ''&'' (map (\<lambda>k. k @ ''='' @ urlEncode (map_index ps k)) (sort (range_keys ps))) @ ''&''"
    using concat_sep_join [OF ne, of "\<lambda>k. k @ ''='' @ urlEncode (map_index ps k)" "''&''"] by simp
  then show ?thesis
    by (simp add: getRequestParamString_def Let_def TrimSuffix_append)
qed

lemma map_index_perm:
  assumes "distinct (map fst ps)" "mset qs = mset ps"
  shows "map_index qs = map_index ps"
proof -
  have "mset (map fst qs) = mset (map fst ps)" using assms(2) by (metis mset_map)
  then have "distinct (map fst qs)" using assms(1) by (metis mset_eq_imp_distinct_iff)
  moreover have "set qs = set ps" using assms(2) by (metis mset_eq_setD)
  ultimately have "map_of qs = map_of ps" using assms(1) by (simp add: map_of_inject_set)
  then show ?thesis by (simp add: map_index_def fun_eq_iff)
qed

lemma sort_keys_perm:
  assumes "mset qs = mset ps"
  shows "sort (range_keys qs) = sort (range_keys ps)"
proof -
  have "mset (range_keys qs) = mset (range_keys ps)"
    unfolding range_keys_def using assms by (metis mset_map)
  then show ?thesis by (metis properties_for_sort sorted_sort mset_sort)
qed

lemma no_trailing_amp: "\<not> suffix ''&'' (getRequestParamString ps)"
proof (cases "ps = []")
  case True
  then show ?thesis by (simp add: getRequestParamString_join range_keys_def)
next
  case False
  let ?f = "\<lambda>k. k @ ''='' @ urlEncode (map_index ps k)"
  let ?ks = "sort (range_keys ps)"
  from False have ne: "map ?f ?ks \<noteq> []"
    by (metis length_sort length_0_conv map_is_Nil_conv range_keys_def)
  obtain p where p: "join ''&'' (map ?f ?ks) = p @ last (map ?f ?ks)"
    using join_last [OF ne] by blast
  have "last (map ?f ?ks) = ?f (last ?ks)" using ne by (simp add: last_map)
  then have eq: "getRequestParamString ps = (p @ last ?ks @ ''='') @ urlEncode (map_index ps (last ?ks))"
    using p by (simp add: getRequestParamString_join)
  show ?thesis
  proof
    assume "suffix ''&'' (getRequestParamString ps)"
    then obtain r where r: "getRequestParamString ps = r @ ''&''" by (auto simp: suffix_def)
    show False
    proof (cases "urlEncode (map_index ps (last ?ks)) = []")
      case True
      with eq r show False by simp
    next
      case False
      then have "last (getRequestParamString ps) = last (urlEncode (map_index ps (last ?ks)))"
        using eq by simp
      moreover have "last (getRequestParamString ps) = CHR ''&''" using r by simp
      ultimately show False using False urlEncode_no_amp last_in_set by metis
    qed
  qed
qed

lemma map_index_key:
  "k \<in> set (range_keys ps) \<Longrightarrow> map_index ps k = the (map_of ps k)"
proof -
  assume "k \<in> set (range_keys ps)"
  then have "k \<in> fst ` set ps" by (simp add: range_keys_def)
  then obtain v where "map_of ps k = Some v" by (metis map_of_eq_None_iff not_Some_eq)
  then show ?thesis by (simp add: map_index_def)
qed

subsection \<open>Canonical parameter string\<close>

text \<open>
  Claim C2. For every parameter map (an association list with distinct keys, in whatever
  order the map is visited), the canonical string is the list of \<open>key=value\<close> pairs
  joined by \<open>&\<close>, over the keys in strictly ascending byte order; it does not end in
  \<open>&\<close>; the empty map gives the empty string; and any other visiting order of the same
  map gives the same string.
\<close>

theorem canonical_sorted_joined:
  assumes "distinct (map fst ps)"
  shows "(\<exists>ks. set ks = fst ` set ps \<and> sorted_wrt (<) ks
            \<and> getRequestParamString ps
                = join ''&'' (map (\<lambda>k. k @ ''='' @ urlEncode (the (map_of ps k))) ks))
       \<and> \<not> suffix ''&'' (getRequestParamString ps)
       \<and> getRequestParamString [] = []
       \<and> (\<forall>qs. mset qs = mset ps \<longrightarrow> getRequestParamString qs = getRequestParamString ps)"
proof (intro conjI allI impI)
  let ?ks = "sort (range_keys ps)"
  have "map (\<lambda>k. k @ ''='' @ urlEncode (map_index ps k)) ?ks
      = map (\<lambda>k. k @ ''='' @ urlEncode (the (map_of ps k))) ?ks"
    by (rule map_cong) (simp_all add: map_index_key)
  then have "getRequestParamString ps
      = join ''&'' (map (\<lambda>k. k @ ''='' @ urlEncode (the (map_of ps k))) ?ks)"
    by (simp only: getRequestParamString_join)
  moreover have "set ?ks = fst ` set ps" by (simp add: range_keys_def)
  moreover have "sorted_wrt (<) ?ks"
    using assms by (simp add: sort_keys_strict range_keys_def)
  ultimately show "\<exists>ks. set ks = fst ` set ps \<and> sorted_wrt (<) ks
            \<and> getRequestParamString ps
                = join ''&'' (map (\<lambda>k. k @ ''='' @ urlEncode (the (map_of ps k))) ks)"
    by blast
next
  show "\<not> suffix ''&'' (getRequestParamString ps)" by (rule no_trailing_amp)
next
  show "getRequestParamString [] = []"
    by (simp add: getRequestParamString_join range_keys_def)
next
  fix qs assume q: "mset qs = mset ps"
  have "map_index qs = map_index ps" by (rule map_index_perm [OF assms q])
  moreover have "sort (range_keys qs) = sort (range_keys ps)" by (rule sort_keys_perm [OF q])
  ultimately show "getRequestParamString qs = getRequestParamString ps"
    by (simp only: getRequestParamString_join)
qed

lemma canonical_example:
  "getRequestParamString [(''symbol'', ''BTC USDT''), (''page'', ''1'')] = ''page=1&symbol=BTC%20USDT''"
  by (simp add: getRequestParamString_join range_keys_def map_index_def urlEncode_bytewise
      percent_byte_def unreserved_def)

text \<open>The theorem at a map of two entries, visited in either order.\<close>

theorem canonical_sorted_joined_witness:
  "distinct (map fst [(''symbol'', ''BTC USDT''), (''page'', ''1'')])
   \<and> getRequestParamString [(''page'', ''1''), (''symbol'', ''BTC USDT'')] = ''page=1&symbol=BTC%20USDT''
   \<and> \<not> suffix ''&'' (getRequestParamString [(''symbol'', ''BTC USDT''), (''page'', ''1'')])"
proof -
  have d: "distinct (map fst [(''symbol'', ''BTC USDT''), (''page'', ''1'')])" by simp
  have m: "mset [(''page'', ''1''), (''symbol'', ''BTC USDT'')] = mset [(''symbol'', ''BTC USDT''), (''page'', ''1'')]"
    by (simp add: add_mset_commute)
  note eq = canonical_sorted_joined [OF d, THEN conjunct2, THEN conjunct2, THEN conjunct2, rule_format, OF m]
  note ns = canonical_sorted_joined [OF d, THEN conjunct2, THEN conjunct1]
  have "getRequestParamString [(''page'', ''1''), (''symbol'', ''BTC USDT'')] = ''page=1&symbol=BTC%20USDT''"
    by (simp only: eq canonical_example)
  with d ns show ?thesis by (intro conjI)
qed



end
